theory Spec2Isabelle
  imports Complex_Main "HOL-Library.Word" "HOL-Library.Multiset" "HOL-Library.Log_Nat"
begin

unbundle bit_operations_syntax

section \<open>Numbers, errors and the two random sources\<close>

text \<open>
  A JavaScript \<open>number\<close> is an IEEE 754 double: a finite value, modelled as the real
  number it stands for, or one of the three non-finite values. The sign of a zero is
  not modelled (a zero is \<open>+0\<close>). The \<open>typeof x !== 'number'\<close> guards of the source
  cannot fire on a value of this type.
\<close>

datatype number = Num real | NaN | PosInfinity | NegInfinity

datatype error = TypeError | RangeError | Error

fun isInteger :: "number \<Rightarrow> bool" where
  "isInteger (Num x) = (real_of_int \<lfloor>x\<rfloor> = x)"
| "isInteger _ = False"


text \<open>
  The real value of a finite number. It is read only where a guard has already excluded
  the non-finite values.
\<close>

fun number_value :: "number \<Rightarrow> real" where
  "number_value (Num w) = w"
| "number_value w = 0"

definition Math_floor :: "real \<Rightarrow> real" where
  "Math_floor x = real_of_int \<lfloor>x\<rfloor>"

definition MAX_SAFE_INTEGER :: real where
  "MAX_SAFE_INTEGER = 9007199254740991"


section \<open>Double arithmetic\<close>

text \<open>
  Every arithmetic operation of the source rounds its exact result to the nearest double,
  a tie going to the even significand. \<open>rhe\<close> rounds a real to the nearest integer in
  that way; \<open>expo x\<close> is the binary exponent of \<open>x\<close>, the \<open>e\<close> with
  \<open>2^e \<le> |x| < 2^(e+1)\<close>; \<open>pexp x\<close> is the exponent of the spacing of the doubles around
  \<open>x\<close>, 53 significant bits above the subnormal spacing \<open>2^(-1074)\<close>; \<open>rdr x\<close> is \<open>x\<close>
  rounded to that spacing; and \<open>round_double\<close> overflows to an infinity from \<open>2^1024\<close> on.
\<close>

definition rhe :: "real \<Rightarrow> int" where
  "rhe t = (let f = \<lfloor>t\<rfloor> in
     if t - real_of_int f < 1/2 then f
     else if 1/2 < t - real_of_int f then f + 1
     else if even f then f else f + 1)"

definition expo :: "real \<Rightarrow> int" where
  "expo x = (let a = \<bar>x\<bar> in
     if 1 \<le> a then bitlen \<lfloor>a\<rfloor> - 1 else - bitlen (\<lceil>1 / a\<rceil> - 1))"

definition pexp :: "real \<Rightarrow> int" where
  "pexp x = max (expo x - 52) (- 1074)"

definition rdr :: "real \<Rightarrow> real" where
  "rdr x = sgn x * (real_of_int (rhe (\<bar>x\<bar> / 2 powi pexp x)) * 2 powi pexp x)"

definition round_double :: "real \<Rightarrow> number" where
  "round_double x =
     (if 2 powi 1024 \<le> \<bar>rdr x\<bar> then (if 0 < x then PosInfinity else NegInfinity)
      else Num (rdr x))"

text \<open>A real is a double when rounding leaves it as it is.\<close>

definition is_double :: "real \<Rightarrow> bool" where
  "is_double x = (round_double x = Num x)"

text \<open>A value of \<open>Math.random()\<close>: a double of \<open>[0, 1)\<close>.\<close>

definition double_draw :: "real \<Rightarrow> bool" where
  "double_draw u = (is_double u \<and> 0 \<le> u \<and> u < 1)"

fun fneg :: "number \<Rightarrow> number" where
  "fneg (Num x) = Num (- x)"
| "fneg NaN = NaN"
| "fneg PosInfinity = NegInfinity"
| "fneg NegInfinity = PosInfinity"

fun fadd :: "number \<Rightarrow> number \<Rightarrow> number" where
  "fadd (Num x) (Num y) = round_double (x + y)"
| "fadd NaN b = NaN"
| "fadd a NaN = NaN"
| "fadd PosInfinity NegInfinity = NaN"
| "fadd NegInfinity PosInfinity = NaN"
| "fadd PosInfinity b = PosInfinity"
| "fadd a PosInfinity = PosInfinity"
| "fadd NegInfinity b = NegInfinity"
| "fadd a NegInfinity = NegInfinity"

definition fsub :: "number \<Rightarrow> number \<Rightarrow> number" where
  "fsub a b = fadd a (fneg b)"

fun fmul :: "number \<Rightarrow> number \<Rightarrow> number" where
  "fmul (Num x) (Num y) = round_double (x * y)"
| "fmul NaN b = NaN"
| "fmul a NaN = NaN"
| "fmul PosInfinity (Num y) = (if y = 0 then NaN else if 0 < y then PosInfinity else NegInfinity)"
| "fmul NegInfinity (Num y) = (if y = 0 then NaN else if 0 < y then NegInfinity else PosInfinity)"
| "fmul (Num x) PosInfinity = (if x = 0 then NaN else if 0 < x then PosInfinity else NegInfinity)"
| "fmul (Num x) NegInfinity = (if x = 0 then NaN else if 0 < x then NegInfinity else PosInfinity)"
| "fmul PosInfinity PosInfinity = PosInfinity"
| "fmul PosInfinity NegInfinity = NegInfinity"
| "fmul NegInfinity PosInfinity = NegInfinity"
| "fmul NegInfinity NegInfinity = PosInfinity"

fun fdiv :: "number \<Rightarrow> number \<Rightarrow> number" where
  "fdiv (Num x) (Num y) =
     (if y = 0 then (if x = 0 then NaN else if 0 < x then PosInfinity else NegInfinity)
      else round_double (x / y))"
| "fdiv NaN b = NaN"
| "fdiv a NaN = NaN"
| "fdiv (Num x) PosInfinity = Num 0"
| "fdiv (Num x) NegInfinity = Num 0"
| "fdiv PosInfinity (Num y) = (if 0 \<le> y then PosInfinity else NegInfinity)"
| "fdiv NegInfinity (Num y) = (if 0 \<le> y then NegInfinity else PosInfinity)"
| "fdiv a b = NaN"

text \<open>\<open>Math.floor\<close> on a number, and the comparisons \<open><\<close> and \<open><=\<close>, false on \<open>NaN\<close>.\<close>

fun floor_number :: "number \<Rightarrow> number" where
  "floor_number (Num x) = Num (real_of_int \<lfloor>x\<rfloor>)"
| "floor_number a = a"

fun num_less :: "number \<Rightarrow> number \<Rightarrow> bool" where
  "num_less (Num x) (Num y) = (x < y)"
| "num_less NaN b = False"
| "num_less a NaN = False"
| "num_less a NegInfinity = False"
| "num_less NegInfinity b = True"
| "num_less PosInfinity b = False"
| "num_less a PosInfinity = True"


section \<open>Random.randint\<close>

definition randint :: "number \<Rightarrow> number \<Rightarrow> real \<Rightarrow> error + number" where
  "randint mn mx u =
     (if \<not> isInteger mn \<or> \<not> isInteger mx then Inl TypeError
      else if num_less mx mn then Inl RangeError
      else let rng = fadd (fsub mx mn) (Num 1) in
        if num_less (Num MAX_SAFE_INTEGER) rng then Inl RangeError
        else Inr (fadd (floor_number (fmul (Num u) rng)) mn))"

section \<open>Random.randrange\<close>



section \<open>Random.uniform\<close>


section \<open>Random.choice\<close>



section \<open>Random.shuffle\<close>





section \<open>Random.sample\<close>



section \<open>Random.choices\<close>









section \<open>Random.gauss and Random.clearCache\<close>





section \<open>SecureRandom\<close>

text \<open>
  The secure byte source is either absent from the environment, or delivers the bytes of a
  list, in order; \<open>None\<close> says that the list ended before the call returned.
\<close>

type_synonym byte = "8 word"

datatype secure_source = Unavailable | Bytes "byte list"

fun getRandomBytes ::
  "nat \<Rightarrow> secure_source \<Rightarrow> ((error + byte list) \<times> secure_source) option" where
  "getRandomBytes n Unavailable = Some (Inl Error, Unavailable)"
| "getRandomBytes n (Bytes bs) =
     (if length bs < n then None else Some (Inr (take n bs), Bytes (drop n bs)))"

text \<open>
  Line 338: the shifts and the ors work on 32-bit integers, and \<open>>>> 0\<close> reads the result
  as unsigned.
\<close>

definition uint32_of_bytes :: "byte list \<Rightarrow> 32 word" where
  "uint32_of_bytes bytes =
     push_bit 24 (ucast (bytes ! 0)) OR push_bit 16 (ucast (bytes ! 1))
       OR push_bit 8 (ucast (bytes ! 2)) OR ucast (bytes ! 3)"

definition getRandomUint32 :: "secure_source \<Rightarrow> ((error + real) \<times> secure_source) option" where
  "getRandomUint32 src =
     (case getRandomBytes 4 src of
        None \<Rightarrow> None
      | Some (Inl e, src') \<Rightarrow> Some (Inl e, src')
      | Some (Inr bytes, src') \<Rightarrow> Some (Inr (real (unat (uint32_of_bytes bytes))), src'))"

text \<open>The remainder operator \<open>%\<close> on finite numbers: the quotient is truncated.\<close>

definition js_rem :: "real \<Rightarrow> real \<Rightarrow> real" where
  "js_rem x y = x - y * real_of_int (if 0 \<le> x / y then \<lfloor>x / y\<rfloor> else \<lceil>x / y\<rceil>)"

definition source_size :: "secure_source \<Rightarrow> nat" where
  "source_size src = (case src of Unavailable \<Rightarrow> 0 | Bytes bs \<Rightarrow> length bs)"

text \<open>The \<open>do ... while (randomValue >= maxValid)\<close> loop of lines 367-369.\<close>

function secure_loop :: "real \<Rightarrow> secure_source \<Rightarrow> ((error + real) \<times> secure_source) option" where
  "secure_loop maxValid src =
     (case getRandomUint32 src of
        None \<Rightarrow> None
      | Some (Inl e, src') \<Rightarrow> Some (Inl e, src')
      | Some (Inr randomValue, src') \<Rightarrow>
          if randomValue \<ge> maxValid then secure_loop maxValid src'
          else Some (Inr randomValue, src'))"
  by pat_completeness auto
termination
proof (relation "measure (\<lambda>(maxValid, src). source_size src)")
  show "wf (measure (\<lambda>(maxValid, src). source_size src))"
    by simp
next
  fix maxValid :: real and src x2 x y randomValue
  assume "getRandomUint32 src = Some x2" and "(x, y) = x2" and "x = Inr randomValue"
  then have "getRandomUint32 src = Some (Inr randomValue, y)"
    by simp
  then have "source_size y < source_size src"
    by (cases src)
      (auto simp: getRandomUint32_def source_size_def split: if_splits)
  then show "((maxValid, y), (maxValid, src)) \<in> measure (\<lambda>(maxValid, src). source_size src)"
    by simp
qed

declare secure_loop.simps [simp del]

definition secure_maxValid :: "real \<Rightarrow> real" where
  "secure_maxValid rng = Math_floor (4294967296 / rng) * rng"

text \<open>
  The guards of lines 349-361: the error thrown, or \<open>None\<close> when they all pass. The range
  \<open>max - min + 1\<close> and \<open>maxValid\<close> are written on the reals: a range that passes the guards
  is an integer of at most \<open>2^32\<close>, which the doubles hold without rounding, and so are
  the quotient's floor and \<open>maxValid\<close>; the remainder \<open>%\<close> never rounds. The sum of line
  371 adds \<open>min\<close>, of any magnitude, and is rounded.
\<close>

definition secure_randint_guards :: "number \<Rightarrow> number \<Rightarrow> error option" where
  "secure_randint_guards mn0 mx0 =
     (if \<not> isInteger mn0 \<or> \<not> isInteger mx0 then Some TypeError
      else let mn = number_value mn0; mx = number_value mx0 in
        if mn > mx then Some RangeError
        else let rng = mx - mn + 1 in
          if rng > 4294967295 then Some RangeError else None)"

definition secure_randint ::
  "number \<Rightarrow> number \<Rightarrow> secure_source \<Rightarrow> ((error + number) \<times> secure_source) option" where
  "secure_randint mn0 mx0 src =
     (case secure_randint_guards mn0 mx0 of
        Some e \<Rightarrow> Some (Inl e, src)
      | None \<Rightarrow>
          let mn = number_value mn0; mx = number_value mx0;
              rng = mx - mn + 1;
              maxValid = secure_maxValid rng
          in case secure_loop maxValid src of
               None \<Rightarrow> None
             | Some (Inl e, src') \<Rightarrow> Some (Inl e, src')
             | Some (Inr randomValue, src') \<Rightarrow>
                 Some (Inr (fadd (Num mn) (Num (js_rem randomValue rng))), src'))"

section \<open>Auxiliary definitions for the proofs\<close>


text \<open>The multiples of \<open>2^p\<close>: the doubles around \<open>x\<close> are the multiples of \<open>2^(pexp x)\<close>.\<close>

definition multiple_of :: "int \<Rightarrow> real \<Rightarrow> bool" where
  "multiple_of p y = (\<exists>m :: int. y = real_of_int m * 2 powi p)"

text \<open>
  A number that is at least, or at most, a real bound: an infinity of the right sign is,
  \<open>NaN\<close> is not.
\<close>

definition at_least :: "real \<Rightarrow> number \<Rightarrow> bool" where
  "at_least c a = (case a of Num x \<Rightarrow> c \<le> x | PosInfinity \<Rightarrow> True | _ \<Rightarrow> False)"



section \<open>Arithmetic of the uniform draw\<close>


section \<open>Rounding to the nearest double\<close>

lemma rhe_of_int [simp]: "rhe (real_of_int k) = k"
  by (simp add: rhe_def)

lemma rhe_floor_le: "\<lfloor>t\<rfloor> \<le> rhe t"
  by (simp add: rhe_def Let_def)

lemma rhe_le_floor1: "rhe t \<le> \<lfloor>t\<rfloor> + 1"
  by (simp add: rhe_def Let_def)

lemma rhe_ge: "real_of_int k \<le> t \<Longrightarrow> k \<le> rhe t"
proof -
  assume "real_of_int k \<le> t"
  then have "k \<le> \<lfloor>t\<rfloor>" by (simp add: le_floor_iff)
  then show ?thesis using rhe_floor_le[of t] by linarith
qed

lemma rhe_le: "t \<le> real_of_int k \<Longrightarrow> rhe t \<le> k"
proof (cases "t = real_of_int \<lfloor>t\<rfloor>")
  case True
  assume "t \<le> real_of_int k"
  then have "\<lfloor>t\<rfloor> \<le> k" by (simp add: floor_le_iff)
  moreover have "rhe t = \<lfloor>t\<rfloor>" using True by (metis rhe_of_int)
  ultimately show ?thesis by simp
next
  case False
  assume a: "t \<le> real_of_int k"
  have "real_of_int \<lfloor>t\<rfloor> < t" using False of_int_floor_le[of t] by linarith
  then have "real_of_int \<lfloor>t\<rfloor> < real_of_int k" using a by linarith
  then have "\<lfloor>t\<rfloor> + 1 \<le> k" by linarith
  then show ?thesis using rhe_le_floor1[of t] by linarith
qed

lemma rhe_err: "\<bar>real_of_int (rhe t) - t\<bar> \<le> 1/2"
proof -
  have "real_of_int \<lfloor>t\<rfloor> \<le> t" "t < real_of_int \<lfloor>t\<rfloor> + 1" by linarith+
  then show ?thesis by (auto simp: rhe_def Let_def)
qed

lemma rhe_mono: "t \<le> s \<Longrightarrow> rhe t \<le> rhe s"
proof -
  assume ts: "t \<le> s"
  then have fl: "\<lfloor>t\<rfloor> \<le> \<lfloor>s\<rfloor>" by (rule floor_mono)
  show ?thesis
  proof (cases "\<lfloor>t\<rfloor> = \<lfloor>s\<rfloor>")
    case True
    then show ?thesis using ts by (auto simp: rhe_def Let_def)
  next
    case False
    then have "\<lfloor>t\<rfloor> + 1 \<le> \<lfloor>s\<rfloor>" using fl by linarith
    then show ?thesis using rhe_le_floor1[of t] rhe_floor_le[of s] by linarith
  qed
qed

lemma rhe_below: "t < real_of_int k + 1/2 \<Longrightarrow> rhe t \<le> k"
proof -
  assume "t < real_of_int k + 1/2"
  then have "real_of_int (rhe t) < real_of_int k + 1" using rhe_err[of t] by linarith
  then show ?thesis by linarith
qed

lemma rhe_nonneg: "0 \<le> t \<Longrightarrow> 0 \<le> rhe t"
  using rhe_ge[of 0 t] by simp

lemma expo_bounds:
  assumes "x \<noteq> 0"
  shows "2 powi expo x \<le> \<bar>x\<bar> \<and> \<bar>x\<bar> < 2 powi (expo x + 1)"
proof (cases "1 \<le> \<bar>x\<bar>")
  case True
  let ?n = "\<lfloor>\<bar>x\<bar>\<rfloor>"
  have n: "0 < ?n" using True by linarith
  have e: "expo x = bitlen ?n - 1" using True by (simp add: expo_def)
  have b1: "1 \<le> bitlen ?n" using n by (simp add: bitlen_alt_def)
  from bitlen_bounds[OF n] have lo: "2 ^ nat (bitlen ?n - 1) \<le> ?n"
    and hi: "?n < 2 ^ nat (bitlen ?n)" by simp_all
  have "(2::real) powi (bitlen ?n - 1) = 2 ^ nat (bitlen ?n - 1)"
    using b1 by (simp add: power_int_def)
  also have "\<dots> = real_of_int (2 ^ nat (bitlen ?n - 1))" by simp
  also have "\<dots> \<le> real_of_int ?n" using lo by (simp only: of_int_le_iff)
  also have "\<dots> \<le> \<bar>x\<bar>" by linarith
  finally have A: "2 powi expo x \<le> \<bar>x\<bar>" unfolding e .
  have "?n + 1 \<le> 2 ^ nat (bitlen ?n)" using hi by linarith
  then have "real_of_int (?n + 1) \<le> real_of_int (2 ^ nat (bitlen ?n))"
    by (simp only: of_int_le_iff)
  moreover have "\<bar>x\<bar> < real_of_int (?n + 1)" by linarith
  moreover have "(2::real) powi (bitlen ?n) = 2 ^ nat (bitlen ?n)"
    using b1 by (simp add: power_int_def)
  ultimately have B: "\<bar>x\<bar> < 2 powi (expo x + 1)" unfolding e by simp linarith
  from A B show ?thesis by simp
next
  case False
  let ?a = "\<bar>x\<bar>"
  have a: "0 < ?a" "?a < 1" using assms False by simp_all
  let ?m = "\<lceil>1 / ?a\<rceil> - 1"
  have inv: "1 < 1 / ?a" using a by simp
  have m: "0 < ?m" using inv by linarith
  have e: "expo x = - bitlen ?m" using False by (simp add: expo_def)
  have b1: "1 \<le> bitlen ?m" using m by (simp add: bitlen_alt_def)
  from bitlen_bounds[OF m] have lo: "2 ^ nat (bitlen ?m - 1) \<le> ?m"
    and hi: "?m < 2 ^ nat (bitlen ?m)" by simp_all
  have "1 / ?a \<le> real_of_int (?m + 1)" by simp
  also have "\<dots> \<le> real_of_int (2 ^ nat (bitlen ?m))"
    using hi by (simp only: of_int_le_iff)
  finally have up: "1 / ?a \<le> 2 ^ nat (bitlen ?m)" by simp
  have "real_of_int (2 ^ nat (bitlen ?m - 1)) \<le> real_of_int ?m"
    using lo by (simp only: of_int_le_iff)
  also have "real_of_int ?m < 1 / ?a" by linarith
  finally have dn: "2 ^ nat (bitlen ?m - 1) < 1 / ?a" by simp
  have p1: "(2::real) powi (- bitlen ?m) = 1 / 2 ^ nat (bitlen ?m)"
    using b1 by (simp add: power_int_def field_simps)
  have p2: "(2::real) powi (- bitlen ?m + 1) = 1 / 2 ^ nat (bitlen ?m - 1)"
    using b1 by (simp add: power_int_def field_simps)
  have A: "2 powi expo x \<le> ?a"
    unfolding e p1 using up a by (simp add: field_simps)
  have B: "?a < 2 powi (expo x + 1)"
    unfolding e p2 using dn a by (simp add: field_simps)
  from A B show ?thesis by simp
qed

lemma expo_eqI:
  assumes "2 powi e \<le> \<bar>x\<bar>" and "\<bar>x\<bar> < 2 powi (e + 1)"
  shows "expo x = e"
proof -
  have "(0::real) < 2 powi e" by simp
  with assms(1) have "0 < \<bar>x\<bar>" by linarith
  then have nz: "x \<noteq> 0" by simp
  note b = expo_bounds[OF nz]
  have "\<not> expo x < e"
  proof
    assume "expo x < e"
    then have "(2::real) powi (expo x + 1) \<le> 2 powi e"
      by (intro power_int_increasing) simp_all
    with b assms(1) show False by linarith
  qed
  moreover have "\<not> e < expo x"
  proof
    assume "e < expo x"
    then have "(2::real) powi (e + 1) \<le> 2 powi expo x"
      by (intro power_int_increasing) simp_all
    with b assms(2) show False by linarith
  qed
  ultimately show ?thesis by linarith
qed

lemma expo_mono:
  assumes "x \<noteq> 0" and "\<bar>x\<bar> \<le> \<bar>y\<bar>"
  shows "expo x \<le> expo y"
proof (rule ccontr)
  assume "\<not> expo x \<le> expo y"
  then have "expo y + 1 \<le> expo x" by simp
  then have "(2::real) powi (expo y + 1) \<le> 2 powi expo x"
    by (intro power_int_increasing) simp_all
  moreover have "y \<noteq> 0" using assms by auto
  ultimately show False using expo_bounds[OF assms(1)] expo_bounds[OF \<open>y \<noteq> 0\<close>] assms(2)
    by linarith
qed

lemma expo_abs [simp]: "expo \<bar>x\<bar> = expo x" and expo_minus [simp]: "expo (- x) = expo x"
  by (simp_all add: expo_def)

lemma pexp_abs [simp]: "pexp \<bar>x\<bar> = pexp x" and pexp_minus [simp]: "pexp (- x) = pexp x"
  by (simp_all add: pexp_def)

lemma pexp_mono: "x \<noteq> 0 \<Longrightarrow> \<bar>x\<bar> \<le> \<bar>y\<bar> \<Longrightarrow> pexp x \<le> pexp y"
  using expo_mono[of x y] by (simp add: pexp_def)

lemma rdr_0 [simp]: "rdr 0 = 0"
  by (simp add: rdr_def)

lemma rdr_minus: "rdr (- x) = - rdr x"
  by (simp add: rdr_def sgn_minus)

lemma rdr_pos: "0 < x \<Longrightarrow> rdr x = real_of_int (rhe (x / 2 powi pexp x)) * 2 powi pexp x"
  by (simp add: rdr_def)

lemma rdr_nonneg: "0 \<le> x \<Longrightarrow> 0 \<le> rdr x"
  by (cases "x = 0") (simp_all add: rdr_pos rhe_nonneg)

lemma rdr_ge_grid:
  assumes "0 < x" and "real_of_int m * 2 powi pexp x \<le> x"
  shows "real_of_int m * 2 powi pexp x \<le> rdr x"
proof -
  have P: "(0::real) < 2 powi pexp x" by simp
  have "real_of_int m \<le> x / 2 powi pexp x" using assms(2) P by (simp add: field_simps)
  then have "m \<le> rhe (x / 2 powi pexp x)" by (rule rhe_ge)
  then have "real_of_int m \<le> real_of_int (rhe (x / 2 powi pexp x))" by simp
  then show ?thesis unfolding rdr_pos[OF assms(1)] using P by (simp add: mult_right_mono)
qed

lemma rdr_le_grid:
  assumes "0 < x" and "x \<le> real_of_int m * 2 powi pexp x"
  shows "rdr x \<le> real_of_int m * 2 powi pexp x"
proof -
  have P: "(0::real) < 2 powi pexp x" by simp
  have "x / 2 powi pexp x \<le> real_of_int m" using assms(2) P by (simp add: field_simps)
  then have "rhe (x / 2 powi pexp x) \<le> m" by (rule rhe_le)
  then have "real_of_int (rhe (x / 2 powi pexp x)) \<le> real_of_int m" by simp
  then show ?thesis unfolding rdr_pos[OF assms(1)] using P by (simp add: mult_right_mono)
qed

lemma rdr_lt_grid:
  assumes "0 < x" and "x < real_of_int m * 2 powi pexp x - 2 powi pexp x / 2"
  shows "rdr x \<le> real_of_int (m - 1) * 2 powi pexp x"
proof -
  have P: "(0::real) < 2 powi pexp x" by simp
  have "x / 2 powi pexp x < real_of_int m - 1/2" using assms(2) P by (simp add: field_simps)
  then have "x / 2 powi pexp x < real_of_int (m - 1) + 1/2" by simp
  then have "rhe (x / 2 powi pexp x) \<le> m - 1" by (rule rhe_below)
  then have "real_of_int (rhe (x / 2 powi pexp x)) \<le> real_of_int (m - 1)"
    by (simp only: of_int_le_iff)
  then show ?thesis unfolding rdr_pos[OF assms(1)] using P by (simp add: mult_right_mono)
qed

lemma multiple_of_coarser:
  assumes "q \<le> p" and "multiple_of p y"
  shows "multiple_of q y"
proof -
  from assms(2) obtain m :: int where y: "y = real_of_int m * 2 powi p"
    by (auto simp: multiple_of_def)
  have "(2::real) powi p = 2 powi (p - q) * 2 powi q"
    by (simp add: power_int_add[symmetric])
  also have "(2::real) powi (p - q) = real_of_int (2 ^ nat (p - q))"
    using assms(1) by (simp add: power_int_def)
  finally have "y = real_of_int (m * 2 ^ nat (p - q)) * 2 powi q"
    using y by simp
  then show ?thesis unfolding multiple_of_def by blast
qed

lemma multiple_of_minus: "multiple_of p (- y) = multiple_of p y"
proof
  assume "multiple_of p (- y)"
  then obtain m :: int where "- y = real_of_int m * 2 powi p" by (auto simp: multiple_of_def)
  then have "y = real_of_int (- m) * 2 powi p" by simp
  then show "multiple_of p y" unfolding multiple_of_def by blast
next
  assume "multiple_of p y"
  then obtain m :: int where "y = real_of_int m * 2 powi p" by (auto simp: multiple_of_def)
  then have "- y = real_of_int (- m) * 2 powi p" by simp
  then show "multiple_of p (- y)" unfolding multiple_of_def by blast
qed

lemma rdr_exact_pos:
  assumes "0 < x" and "multiple_of (pexp x) x"
  shows "rdr x = x"
proof -
  from assms(2) obtain m :: int where x: "x = real_of_int m * 2 powi pexp x"
    by (auto simp: multiple_of_def)
  have "x / 2 powi pexp x = real_of_int m"
  proof -
    have "real_of_int m * 2 powi pexp x / 2 powi pexp x = real_of_int m" by simp
    with x show ?thesis by simp
  qed
  then have "rhe (x / 2 powi pexp x) = m" by simp
  then show ?thesis unfolding rdr_pos[OF assms(1)] using x by simp
qed

lemma rdr_exact:
  assumes "multiple_of (pexp x) x"
  shows "rdr x = x"
proof (cases "0 < x")
  case True
  then show ?thesis using assms by (rule rdr_exact_pos)
next
  case False
  show ?thesis
  proof (cases "x = 0")
    case True
    then show ?thesis by simp
  next
    case False
    with \<open>\<not> 0 < x\<close> have n: "0 < - x" by simp
    have "multiple_of (pexp (- x)) (- x)" using assms by (simp add: multiple_of_minus)
    from rdr_exact_pos[OF n this] show ?thesis by (simp add: rdr_minus)
  qed
qed

lemma rdr_multiple: "multiple_of (pexp x) (rdr x)"
proof -
  have "rdr x = real_of_int (if x < 0 then - rhe (\<bar>x\<bar> / 2 powi pexp x)
                  else if x = 0 then 0 else rhe (\<bar>x\<bar> / 2 powi pexp x)) * 2 powi pexp x"
    by (simp add: rdr_def sgn_if)
  then show ?thesis unfolding multiple_of_def by blast
qed

lemma pexp_ge: "- 1074 \<le> pexp x" and pexp_ge_expo: "expo x - 52 \<le> pexp x"
  by (simp_all add: pexp_def)

lemma less_pexp53:
  assumes "x \<noteq> 0"
  shows "\<bar>x\<bar> < 2 powi (pexp x + 53)"
proof -
  have "(2::real) powi (expo x + 1) \<le> 2 powi (pexp x + 53)"
    using pexp_ge_expo[of x] by (intro power_int_increasing) simp_all
  then show ?thesis using expo_bounds[OF assms] by linarith
qed

lemma pow53_grid: "(2::real) powi (p + 53) = real_of_int (2 ^ 53) * 2 powi p"
  by (simp add: power_int_add)

lemma pow52_grid: "(2::real) powi (p + 52) = real_of_int (2 ^ 52) * 2 powi p"
  by (simp add: power_int_add)

lemma rdr_upper:
  assumes "0 < x"
  shows "rdr x \<le> 2 powi (pexp x + 53)"
proof -
  have "x \<le> real_of_int (2 ^ 53) * 2 powi pexp x"
    using less_pexp53[of x] assms unfolding pow53_grid by simp
  from rdr_le_grid[OF assms this] show ?thesis unfolding pow53_grid .
qed

lemma rdr_lower:
  assumes "0 < x" and "pexp x = expo x - 52"
  shows "2 powi expo x \<le> rdr x"
proof -
  have e: "(2::real) powi expo x = real_of_int (2 ^ 52) * 2 powi pexp x"
    using pow52_grid[of "pexp x"] assms(2) by simp
  have "2 powi expo x \<le> x" using expo_bounds[of x] assms(1) by simp
  then have "real_of_int (2 ^ 52) * 2 powi pexp x \<le> x" unfolding e .
  from rdr_ge_grid[OF assms(1) this] show ?thesis unfolding e .
qed

lemma rdr_mono_pos:
  assumes "0 < x" and "x \<le> y"
  shows "rdr x \<le> rdr y"
proof -
  have y: "0 < y" using assms by simp
  have pm: "pexp x \<le> pexp y" using assms by (intro pexp_mono) simp_all
  show ?thesis
  proof (cases "pexp x = pexp y")
    case True
    have "x / 2 powi pexp y \<le> y / 2 powi pexp y"
      using assms(2) by (simp add: divide_right_mono)
    then have "rhe (x / 2 powi pexp y) \<le> rhe (y / 2 powi pexp y)" by (rule rhe_mono)
    then have "real_of_int (rhe (x / 2 powi pexp y)) \<le> real_of_int (rhe (y / 2 powi pexp y))"
      by simp
    then show ?thesis
      unfolding rdr_pos[OF assms(1)] rdr_pos[OF y] True by (simp add: mult_right_mono)
  next
    case False
    then have lt: "pexp x < pexp y" using pm by simp
    then have "- 1074 < pexp y" using pexp_ge[of x] by linarith
    then have py: "pexp y = expo y - 52" by (simp add: pexp_def)
    have "rdr x \<le> 2 powi (pexp x + 53)" by (rule rdr_upper[OF assms(1)])
    also have "\<dots> \<le> 2 powi expo y"
      using lt py by (intro power_int_increasing) simp_all
    also have "\<dots> \<le> rdr y" by (rule rdr_lower[OF y py])
    finally show ?thesis .
  qed
qed

lemma rdr_mono:
  assumes "x \<le> y"
  shows "rdr x \<le> rdr y"
proof (cases "0 < x")
  case True
  then show ?thesis using assms by (rule rdr_mono_pos)
next
  case False
  then have x: "x \<le> 0" by simp
  have rx: "rdr x \<le> 0" using rdr_nonneg[of "- x"] x by (simp add: rdr_minus)
  show ?thesis
  proof (cases "0 \<le> y")
    case True
    then show ?thesis using rx rdr_nonneg[of y] by linarith
  next
    case False
    then have "0 < - y" "- y \<le> - x" using assms by simp_all
    then have "rdr (- y) \<le> rdr (- x)" by (rule rdr_mono_pos)
    then show ?thesis by (simp add: rdr_minus)
  qed
qed

lemma rdr_idem_pos:
  assumes "0 < x"
  shows "rdr (rdr x) = rdr x"
proof (cases "rdr x = 0")
  case True
  then show ?thesis by simp
next
  case False
  let ?r = "rdr x"
  let ?p = "pexp x"
  have r: "0 < ?r" using False rdr_nonneg[of x] assms by simp
  have up: "?r \<le> 2 powi (?p + 53)" by (rule rdr_upper[OF assms])
  have m: "multiple_of ?p ?r" by (rule rdr_multiple)
  have "multiple_of (pexp ?r) ?r"
  proof (cases "?r = 2 powi (?p + 53)")
    case True
    have "expo ?r = ?p + 53"
      by (rule expo_eqI) (simp_all add: True power_int_add)
    then have pr: "pexp ?r = ?p + 1" using pexp_ge[of x] by (simp add: pexp_def)
    have "?r = real_of_int (2 ^ 52) * 2 powi (?p + 1)"
      unfolding True by (simp add: power_int_add)
    then show ?thesis unfolding pr multiple_of_def by blast
  next
    case False
    then have lt: "?r < 2 powi (?p + 53)" using up by simp
    have "expo ?r < ?p + 53"
    proof (rule ccontr)
      assume "\<not> expo ?r < ?p + 53"
      then have "(2::real) powi (?p + 53) \<le> 2 powi expo ?r"
        by (intro power_int_increasing) simp_all
      then show False using expo_bounds[of ?r] r lt by simp
    qed
    then have "pexp ?r \<le> ?p" using pexp_ge[of x] by (simp add: pexp_def)
    then show ?thesis using m by (rule multiple_of_coarser)
  qed
  then show ?thesis by (rule rdr_exact)
qed

lemma rdr_idem: "rdr (rdr x) = rdr x"
proof (cases "0 < x")
  case True
  then show ?thesis by (rule rdr_idem_pos)
next
  case False
  show ?thesis
  proof (cases "x = 0")
    case True
    then show ?thesis by simp
  next
    case False
    with \<open>\<not> 0 < x\<close> have "0 < - x" by simp
    from rdr_idem_pos[OF this] show ?thesis by (simp add: rdr_minus)
  qed
qed

lemma rdr_int:
  assumes "\<bar>k\<bar> \<le> 2 ^ 53"
  shows "rdr (real_of_int k) = real_of_int k"
proof (cases "k = 0")
  case True
  then show ?thesis by simp
next
  case False
  let ?x = "real_of_int k"
  have nz: "?x \<noteq> 0" using False by simp
  have "multiple_of (pexp ?x) ?x"
  proof (cases "\<bar>k\<bar> = 2 ^ 53")
    case True
    then have a: "\<bar>?x\<bar> = 2 powi 53"
      by (metis of_int_abs of_int_numeral of_int_power power_int_numeral)
    have "expo ?x = 53" by (rule expo_eqI) (simp_all add: a)
    then have p: "pexp ?x = 1" by (simp add: pexp_def)
    have "even k" using True by (metis even_abs_add_iff even_add even_numeral even_power zero_less_numeral)
    then obtain j where "k = 2 * j" by (auto elim: evenE)
    then have "?x = real_of_int j * 2 powi 1" by simp
    then show ?thesis unfolding p multiple_of_def by blast
  next
    case False
    then have "\<bar>k\<bar> < 2 ^ 53" using assms by simp
    then have "real_of_int \<bar>k\<bar> < real_of_int (2 ^ 53)" by (simp only: of_int_less_iff)
    then have lt: "\<bar>?x\<bar> < 2 powi 53" by simp
    have "expo ?x < 53"
    proof (rule ccontr)
      assume "\<not> expo ?x < 53"
      then have "(2::real) powi 53 \<le> 2 powi expo ?x"
        by (intro power_int_increasing) simp_all
      then show False using expo_bounds[OF nz] lt by linarith
    qed
    then have "pexp ?x \<le> 0" by (simp add: pexp_def)
    moreover have "multiple_of 0 ?x" unfolding multiple_of_def by simp
    ultimately show ?thesis by (rule multiple_of_coarser)
  qed
  then show ?thesis by (rule rdr_exact)
qed

lemma expo_bounds_pos:
  assumes "0 < x"
  shows "2 powi expo x \<le> x" and "x < 2 powi (expo x + 1)"
proof -
  have "x \<noteq> 0" using assms by simp
  from expo_bounds[OF this] have "2 powi expo x \<le> \<bar>x\<bar> \<and> \<bar>x\<bar> < 2 powi (expo x + 1)" .
  moreover have "\<bar>x\<bar> = x" using assms by simp
  ultimately show "2 powi expo x \<le> x" and "x < 2 powi (expo x + 1)" by (simp_all only:)
qed

lemma expo_less:
  assumes "0 < x" and "x < 2 powi k"
  shows "expo x < k"
proof (rule ccontr)
  assume "\<not> expo x < k"
  then have "(2::real) powi k \<le> 2 powi expo x" by (intro power_int_increasing) simp_all
  then show False using expo_bounds_pos(1)[OF assms(1)] assms(2) by linarith
qed

lemma expo_ge:
  assumes "0 < x" and "2 powi k \<le> x"
  shows "k \<le> expo x"
proof (rule ccontr)
  assume "\<not> k \<le> expo x"
  then have "(2::real) powi (expo x + 1) \<le> 2 powi k" by (intro power_int_increasing) simp_all
  then show False using expo_bounds_pos(2)[OF assms(1)] assms(2) by linarith
qed

lemma is_double_iff: "is_double x \<longleftrightarrow> rdr x = x \<and> \<bar>x\<bar> < 2 powi 1024"
  by (auto simp: is_double_def round_double_def)

lemma round_double_finite:
  "\<bar>rdr x\<bar> < 2 powi 1024 \<Longrightarrow> round_double x = Num (rdr x)"
  by (simp add: round_double_def)

lemma round_double_0 [simp]: "round_double 0 = Num 0"
  by (simp add: round_double_def)

lemma is_double_0 [simp]: "is_double 0"
  by (simp add: is_double_def)

lemma pow53_lt_pow1024: "(2::real) ^ 53 < 2 powi 1024"
proof -
  have "(2::real) powi 53 < 2 powi 1024" by (intro power_int_strict_increasing) simp_all
  then show ?thesis by simp
qed

lemma is_double_int:
  assumes "\<bar>k\<bar> \<le> 2 ^ 53"
  shows "is_double (real_of_int k)"
proof -
  have "real_of_int \<bar>k\<bar> \<le> real_of_int (2 ^ 53)" using assms by (simp only: of_int_le_iff)
  then have "\<bar>real_of_int k\<bar> < 2 powi 1024" using pow53_lt_pow1024 by simp
  then show ?thesis using rdr_int[OF assms] by (simp add: is_double_iff)
qed

lemma round_double_int:
  "\<bar>k\<bar> \<le> 2 ^ 53 \<Longrightarrow> round_double (real_of_int k) = Num (real_of_int k)"
  using is_double_int[of k] by (simp add: is_double_def)

lemma round_double_between:
  assumes "is_double lo" and "is_double hi" and "lo \<le> x" and "x \<le> hi"
  shows "round_double x = Num (rdr x) \<and> lo \<le> rdr x \<and> rdr x \<le> hi \<and> is_double (rdr x)"
proof -
  have l: "rdr lo = lo" "\<bar>lo\<bar> < 2 powi 1024" and h: "rdr hi = hi" "\<bar>hi\<bar> < 2 powi 1024"
    using assms(1,2) by (simp_all add: is_double_iff)
  have a: "lo \<le> rdr x" using rdr_mono[OF assms(3)] l(1) by simp
  have b: "rdr x \<le> hi" using rdr_mono[OF assms(4)] h(1) by simp
  have c: "\<bar>rdr x\<bar> < 2 powi 1024" using a b l(2) h(2) by linarith
  have "is_double (rdr x)" using c by (simp add: is_double_iff rdr_idem)
  then show ?thesis using a b c by (simp add: round_double_finite)
qed

lemma is_double_multiple:
  assumes "is_double x"
  shows "multiple_of (pexp x) x"
proof -
  have "rdr x = x" using assms by (simp add: is_double_iff)
  then show ?thesis using rdr_multiple[of x] by simp
qed

lemma draw_le:
  assumes "double_draw u"
  shows "u \<le> 1 - 2 powi (- 53)"
proof (cases "u < 1/2")
  case True
  have "(2::real) powi (- 53) \<le> 2 powi (- 1)" by (intro power_int_increasing) simp_all
  then have "(2::real) powi (- 53) \<le> 1/2" by (simp add: power_int_minus)
  then show ?thesis using True by linarith
next
  case False
  have u: "is_double u" "0 \<le> u" "u < 1" using assms by (simp_all add: double_draw_def)
  have "expo u = - 1"
    by (rule expo_eqI) (use False u in \<open>simp_all add: power_int_minus\<close>)
  then have p: "pexp u = - 53" by (simp add: pexp_def)
  from is_double_multiple[OF u(1)] obtain m :: int where m: "u = real_of_int m * 2 powi (- 53)"
    unfolding p multiple_of_def by blast
  have P: "(0::real) < 2 powi (- 53)" by simp
  have "real_of_int m * 2 powi (- 53) < 1" using u(3) m by simp
  then have "real_of_int m < 1 / 2 powi (- 53)" using P by (simp add: field_simps)
  also have "1 / (2::real) powi (- 53) = real_of_int (2 ^ 53)" by (simp add: power_int_minus)
  finally have "m < 2 ^ 53" by (simp only: of_int_less_iff)
  then have "m \<le> 2 ^ 53 - 1" by simp
  then have "real_of_int m \<le> real_of_int (2 ^ 53 - 1)" by (simp only: of_int_le_iff)
  then have "real_of_int m * 2 powi (- 53) \<le> real_of_int (2 ^ 53 - 1) * 2 powi (- 53)"
    using P by (simp add: mult_right_mono)
  also have "real_of_int (2 ^ 53 - 1) * 2 powi (- 53) = 1 - (2::real) powi (- 53)"
    by (simp add: power_int_minus field_simps)
  finally show ?thesis using m by simp
qed

text \<open>A draw times a double \<open>n\<close> rounds below \<open>n\<close>, above the subnormal range.\<close>

lemma rdr_draw_lt:
  assumes "double_draw u" and "rdr n = n" and "2 powi (- 1021) \<le> n"
  shows "rdr (u * n) < n"
proof -
  have n: "0 < n" using assms(3) zero_less_power_int[of "2::real" "- 1021"] by linarith
  have u: "0 \<le> u" "u < 1" using assms(1) by (simp_all add: double_draw_def)
  show ?thesis
  proof (cases "u = 0")
    case True
    then show ?thesis using n by simp
  next
    case False
    let ?x = "u * n"
    let ?p = "pexp ?x"
    have x: "0 < ?x" using False u n by simp
    have xn: "?x < n" using u n by simp
    have xle: "?x \<le> n - n * 2 powi (- 53)"
    proof -
      have "u * n \<le> (1 - 2 powi (- 53)) * n"
        using draw_le[OF assms(1)] n by (intro mult_right_mono) simp_all
      then show ?thesis by (simp add: algebra_simps)
    qed
    have "?x \<noteq> 0" using x by linarith
    moreover have "\<bar>?x\<bar> \<le> \<bar>n\<bar>" using x xn by linarith
    ultimately have pm: "?p \<le> pexp n" by (rule pexp_mono)
    have "multiple_of (pexp n) n" using rdr_multiple[of n] assms(2) by simp
    with pm have "multiple_of ?p n" by (rule multiple_of_coarser)
    then obtain N :: int where N: "n = real_of_int N * 2 powi ?p"
      unfolding multiple_of_def by blast
    have half: "2 powi ?p / 2 < n * 2 powi (- 53)"
    proof (cases "?p = expo ?x - 52")
      case True
      have "(2::real) powi ?p / 2 = 2 powi expo ?x * 2 powi (- 53)"
        unfolding True by (simp add: power_int_diff power_int_minus field_simps)
      also have "\<dots> \<le> ?x * 2 powi (- 53)"
        using expo_bounds_pos(1)[OF x] by (intro mult_right_mono) simp_all
      also have "\<dots> < n * 2 powi (- 53)"
        using xn by (intro mult_strict_right_mono) simp_all
      finally show ?thesis .
    next
      case False
      then have p: "?p = - 1074" by (simp add: pexp_def max_def split: if_splits)
      have "(2::real) powi (- 1074) / 2 < 2 powi (- 1021) * 2 powi (- 53)"
      proof -
        have "(2::real) powi (- 1074) / 2 = 2 powi (- 1075)"
          by (simp add: power_int_minus field_simps)
        moreover have "(2::real) powi (- 1021) * 2 powi (- 53) = 2 powi (- 1074)"
          by (simp add: power_int_add[symmetric])
        moreover have "(2::real) powi (- 1075) < 2 powi (- 1074)"
          by (intro power_int_strict_increasing) simp_all
        ultimately show ?thesis by simp
      qed
      also have "\<dots> \<le> n * 2 powi (- 53)"
        using assms(3) by (intro mult_right_mono) simp_all
      finally show ?thesis unfolding p .
    qed
    have "?x < real_of_int N * 2 powi ?p - 2 powi ?p / 2"
      using xle half N by linarith
    from rdr_lt_grid[OF x this] have "rdr ?x \<le> real_of_int (N - 1) * 2 powi ?p" .
    also have "\<dots> = n - 2 powi ?p" using N by (simp add: algebra_simps)
    also have "\<dots> < n" by simp
    finally show ?thesis .
  qed
qed

text \<open>The floor of a rounded quotient of integers below \<open>2^53\<close> is the integer quotient.\<close>

lemma floor_rdr_div:
  fixes a b :: int
  assumes "0 \<le> a" and "a < 2 ^ 53" and "1 \<le> b" and "b \<le> 2 ^ 53"
  shows "\<lfloor>rdr (real_of_int a / real_of_int b)\<rfloor> = a div b"
    and "\<bar>rdr (real_of_int a / real_of_int b)\<bar> < 2 powi 1024"
proof -
  let ?x = "real_of_int a / real_of_int b"
  let ?q = "a div b"
  have b: "0 < real_of_int b" using assms(3) by simp
  have qb: "real_of_int ?q \<le> ?x" "?x < real_of_int ?q + 1"
  proof -
    have "\<lfloor>?x\<rfloor> = ?q" by (rule floor_divide_of_int_eq)
    then show "real_of_int ?q \<le> ?x" "?x < real_of_int ?q + 1" by linarith+
  qed
  have main: "real_of_int ?q \<le> rdr ?x \<and> rdr ?x < real_of_int ?q + 1"
  proof (cases "a = 0")
    case True
    then show ?thesis by simp
  next
    case False
    then have a: "1 \<le> a" using assms(1) by simp
    have x: "0 < ?x" using a b by simp
    let ?p = "pexp ?x"
    have xa: "?x \<le> real_of_int a" using a assms(3) by (simp add: field_simps mult_le_cancel_left1)
    have "real_of_int a < real_of_int (2 ^ 53)" using assms(2) by (simp only: of_int_less_iff)
    then have x53: "?x < 2 powi 53" using xa by simp
    have "expo ?x < 53" by (rule expo_less[OF x x53])
    have xlow: "2 powi (- 53) \<le> ?x"
    proof -
      have "real_of_int b \<le> real_of_int (2 ^ 53)" using assms(4) by (simp only: of_int_le_iff)
      then have "1 / real_of_int (2 ^ 53) \<le> 1 / real_of_int b"
        using b by (intro divide_left_mono) simp_all
      also have "\<dots> \<le> ?x" using a b by (simp add: divide_right_mono)
      finally show ?thesis by (simp add: power_int_minus field_simps)
    qed
    have "- 53 \<le> expo ?x" by (rule expo_ge[OF x xlow])
    then have p: "?p = expo ?x - 52" by (simp add: pexp_def)
    have p0: "?p \<le> 0" using \<open>expo ?x < 53\<close> p by simp
    have grid: "multiple_of ?p (real_of_int j)" for j :: int
    proof -
      have "multiple_of 0 (real_of_int j)" unfolding multiple_of_def by simp
      with p0 show ?thesis by (rule multiple_of_coarser)
    qed
    from grid[of ?q] obtain M :: int where M: "real_of_int ?q = real_of_int M * 2 powi ?p"
      unfolding multiple_of_def by blast
    from grid[of "?q + 1"] obtain N :: int where N: "real_of_int (?q + 1) = real_of_int N * 2 powi ?p"
      unfolding multiple_of_def by blast
    have lo: "real_of_int ?q \<le> rdr ?x"
      using rdr_ge_grid[OF x, of M] qb(1) M by simp
    have gap: "1 / real_of_int b \<le> real_of_int (?q + 1) - ?x"
    proof -
      have "a < (?q + 1) * b"
        using assms(3) by (metis add.commute div_mult_mod_eq add_strict_left_mono
            pos_mod_bound zless_add1_eq distrib_right mult_1 less_le_not_le mult.commute
            not_less zero_less_one_class.zero_less_one order.strict_trans2)
      then have "a + 1 \<le> (?q + 1) * b" by simp
      then have "real_of_int (a + 1) \<le> real_of_int ((?q + 1) * b)" by (simp only: of_int_le_iff)
      then have "real_of_int a + 1 \<le> real_of_int (?q + 1) * real_of_int b" by simp
      then have "(real_of_int a + 1) / real_of_int b \<le> real_of_int (?q + 1)"
        using b by (simp add: field_simps)
      then show ?thesis by (simp add: add_divide_distrib)
    qed
    have half: "2 powi ?p / 2 < 1 / real_of_int b"
    proof -
      have "(2::real) powi ?p / 2 = 2 powi expo ?x * 2 powi (- 53)"
        unfolding p by (simp add: power_int_diff power_int_minus field_simps)
      also have "\<dots> \<le> ?x * 2 powi (- 53)"
        using expo_bounds_pos(1)[OF x] by (intro mult_right_mono) simp_all
      also have "\<dots> = (real_of_int a * 2 powi (- 53)) / real_of_int b" by simp
      also have "\<dots> < 1 / real_of_int b"
      proof -
        have "real_of_int a * 2 powi (- 53) < real_of_int (2 ^ 53) * 2 powi (- 53)"
          using \<open>real_of_int a < real_of_int (2 ^ 53)\<close>
          by (intro mult_strict_right_mono) simp_all
        also have "\<dots> = 1" by (simp add: power_int_minus)
        finally have "real_of_int a * 2 powi (- 53) < 1" .
        then show ?thesis using b by (rule divide_strict_right_mono)
      qed
      finally show ?thesis .
    qed
    have "?x < real_of_int N * 2 powi ?p - 2 powi ?p / 2"
      using gap half N by linarith
    from rdr_lt_grid[OF x this] have "rdr ?x \<le> real_of_int (N - 1) * 2 powi ?p" .
    also have "\<dots> = real_of_int (?q + 1) - 2 powi ?p" using N by (simp add: algebra_simps)
    also have "\<dots> < real_of_int ?q + 1" by simp
    finally show ?thesis using lo by simp
  qed
  then show "\<lfloor>rdr ?x\<rfloor> = ?q" by linarith
  have "0 \<le> ?q" using assms(1,3) by (simp add: pos_imp_zdiv_nonneg_iff)
  moreover have "?q \<le> a" using assms(1,3) by (metis int_div_less_self less_le_not_le
        div_by_1 nle_le zdiv_mono2 zero_less_one_class.zero_less_one)
  ultimately have "\<bar>rdr ?x\<bar> < real_of_int a + 1" using main by linarith
  also have "\<dots> \<le> real_of_int (2 ^ 53)"
    using assms(2) by (metis of_int_1 of_int_add of_int_le_iff zless_imp_add1_zle)
  also have "\<dots> < 2 powi 1024" using pow53_lt_pow1024 by simp
  finally show "\<bar>rdr ?x\<bar> < 2 powi 1024" .
qed



lemma rdr_integer: "\<exists>k :: int. rdr (real_of_int j) = real_of_int k"
proof (cases "\<bar>j\<bar> \<le> 2 ^ 53")
  case True
  then show ?thesis using rdr_int by blast
next
  case False
  let ?x = "real_of_int j"
  have "real_of_int (2 ^ 53) \<le> real_of_int \<bar>j\<bar>" using False by (simp only: of_int_le_iff)
  then have big: "2 powi 53 \<le> \<bar>?x\<bar>" by simp
  then have "53 \<le> expo \<bar>?x\<bar>" by (intro expo_ge) simp_all
  then have p: "0 \<le> pexp ?x" by (simp add: pexp_def)
  from rdr_multiple[of ?x] obtain m :: int where "rdr ?x = real_of_int m * 2 powi pexp ?x"
    unfolding multiple_of_def by blast
  also have "(2::real) powi pexp ?x = real_of_int (2 ^ nat (pexp ?x))"
    using p by (simp add: power_int_def)
  finally have "rdr ?x = real_of_int (m * 2 ^ nat (pexp ?x))" by simp
  then show ?thesis by blast
qed

lemma fsub_Num: "fsub (Num x) (Num y) = round_double (x - y)"
  by (simp add: fsub_def)


lemma is_double_top_draw: "double_draw (1 - 2 powi (- 53))"
proof -
  let ?u = "1 - (2::real) powi (- 53)"
  have h: "(2::real) powi (- 53) \<le> 1/2"
  proof -
    have "(2::real) powi (- 53) \<le> 2 powi (- 1)" by (intro power_int_increasing) simp_all
    then show ?thesis by (simp add: power_int_minus)
  qed
  have P: "(0::real) < 2 powi (- 53)" by simp
  have u: "1/2 \<le> ?u" "?u < 1" using h P by linarith+
  have "expo ?u = - 1"
    by (rule expo_eqI) (use u in \<open>simp_all add: power_int_minus\<close>)
  then have p: "pexp ?u = - 53" by (simp add: pexp_def)
  have "?u = real_of_int (2 ^ 53 - 1) * 2 powi (- 53)"
    by (simp add: power_int_minus field_simps)
  then have "multiple_of (pexp ?u) ?u" unfolding p multiple_of_def by blast
  then have "rdr ?u = ?u" by (rule rdr_exact)
  moreover have "\<bar>?u\<bar> < 2 powi 1024"
  proof -
    have "(1::real) \<le> 2 powi 1024" by (intro one_le_power_int) simp_all
    then show ?thesis using u by linarith
  qed
  ultimately have "is_double ?u" by (simp add: is_double_iff)
  then show ?thesis using u by (simp add: double_draw_def)
qed

lemma double_half: "double_draw (1/2)"
proof -
  have "expo (1/2) = - 1" by (rule expo_eqI) (simp_all add: power_int_minus)
  then have p: "pexp (1/2) = - 53" by (simp add: pexp_def)
  have "(1/2 :: real) = real_of_int (2 ^ 52) * 2 powi (- 53)"
    by (simp add: power_int_minus)
  then have "multiple_of (pexp (1/2)) (1/2)" unfolding p multiple_of_def by blast
  then have "rdr (1/2) = 1/2" by (rule rdr_exact)
  moreover have "\<bar>1/2 :: real\<bar> < 2 powi 1024"
  proof -
    have "(1::real) \<le> 2 powi 1024" by (intro one_le_power_int) simp_all
    then show ?thesis by simp
  qed
  ultimately show ?thesis by (simp add: double_draw_def is_double_iff)
qed

section \<open>Random.randint: the range\<close>

lemma randint_value:
  fixes mn mx :: int and u :: real
  assumes "is_double (real_of_int mn)" and "is_double (real_of_int mx)" and "mn \<le> mx"
    and "real_of_int (mx - mn + 1) \<le> MAX_SAFE_INTEGER" and "double_draw u"
  shows "randint (Num (real_of_int mn)) (Num (real_of_int mx)) u
           = Inr (fadd (floor_number (fmul (Num u) (Num (real_of_int (mx - mn + 1)))))
                   (Num (real_of_int mn)))"
    and "fadd (floor_number (fmul (Num u) (Num (real_of_int (mx - mn + 1)))))
           (Num (real_of_int mn))
         = Num (rdr (real_of_int (\<lfloor>rdr (u * real_of_int (mx - mn + 1))\<rfloor> + mn)))"
    and "0 \<le> \<lfloor>rdr (u * real_of_int (mx - mn + 1))\<rfloor>"
    and "\<lfloor>rdr (u * real_of_int (mx - mn + 1))\<rfloor> \<le> mx - mn"
    and "real_of_int mn \<le> rdr (real_of_int (\<lfloor>rdr (u * real_of_int (mx - mn + 1))\<rfloor> + mn))"
    and "rdr (real_of_int (\<lfloor>rdr (u * real_of_int (mx - mn + 1))\<rfloor> + mn)) \<le> real_of_int mx"
proof -
  let ?n = "mx - mn + 1"
  let ?j = "\<lfloor>rdr (u * real_of_int ?n)\<rfloor>"
  have nb: "1 \<le> ?n" "?n \<le> 2 ^ 53 - 1"
    using assms(3,4) by (simp_all add: MAX_SAFE_INTEGER_def)
  have d: "fsub (Num (real_of_int mx)) (Num (real_of_int mn)) = Num (real_of_int (mx - mn))"
    using round_double_int[of "mx - mn"] nb assms(3) by (simp add: fsub_Num)
  have r: "fadd (Num (real_of_int (mx - mn))) (Num 1) = Num (real_of_int ?n)"
    using round_double_int[of ?n] nb by simp
  have g: "\<not> num_less (Num MAX_SAFE_INTEGER) (Num (real_of_int ?n))"
    using assms(4) by simp
  have le: "\<not> num_less (Num (real_of_int mx)) (Num (real_of_int mn))"
    using assms(3) by simp
  show "randint (Num (real_of_int mn)) (Num (real_of_int mx)) u
           = Inr (fadd (floor_number (fmul (Num u) (Num (real_of_int ?n))))
                   (Num (real_of_int mn)))"
    unfolding randint_def d r using g le by (simp add: Let_def)
  have dn: "is_double (real_of_int ?n)" using nb by (intro is_double_int) simp
  have u: "0 \<le> u" "u < 1" using assms(5) by (simp_all add: double_draw_def)
  have un: "0 \<le> u * real_of_int ?n" "u * real_of_int ?n \<le> real_of_int ?n"
    using u nb by (simp_all add: mult_left_le_one_le)
  from round_double_between[OF is_double_0 dn un]
  have m: "round_double (u * real_of_int ?n) = Num (rdr (u * real_of_int ?n))"
    and m0: "0 \<le> rdr (u * real_of_int ?n)" by simp_all
  have "(2::real) powi (- 1021) \<le> 2 powi 0" by (intro power_int_increasing) simp_all
  then have "(2::real) powi (- 1021) \<le> 1" by simp
  then have "2 powi (- 1021) \<le> real_of_int ?n" using nb by simp
  moreover have "rdr (real_of_int ?n) = real_of_int ?n" using dn by (simp add: is_double_iff)
  ultimately have lt: "rdr (u * real_of_int ?n) < real_of_int ?n"
    by (intro rdr_draw_lt[OF assms(5)])
  show j0: "0 \<le> ?j" using m0 by simp
  show j1: "?j \<le> mx - mn" using lt by linarith
  have b: "real_of_int mn \<le> real_of_int (?j + mn)" "real_of_int (?j + mn) \<le> real_of_int mx"
    using j0 j1 by simp_all
  from round_double_between[OF assms(1,2) b]
  have s: "round_double (real_of_int (?j + mn)) = Num (rdr (real_of_int (?j + mn)))"
    and "real_of_int mn \<le> rdr (real_of_int (?j + mn))"
    and "rdr (real_of_int (?j + mn)) \<le> real_of_int mx" by simp_all
  then show "real_of_int mn \<le> rdr (real_of_int (?j + mn))"
    and "rdr (real_of_int (?j + mn)) \<le> real_of_int mx" by simp_all
  show "fadd (floor_number (fmul (Num u) (Num (real_of_int ?n)))) (Num (real_of_int mn))
         = Num (rdr (real_of_int (?j + mn)))"
    using m s by simp
qed

text \<open>
  Claim C2. For integers \<open>mn \<le> mx\<close> (doubles, as every number of the source is) whose
  range \<open>mx - mn + 1\<close> does not exceed \<open>MAX_SAFE_INTEGER\<close>, and for every draw \<open>u\<close>, a
  double of \<open>[0, 1)\<close>: \<open>randint\<close> passes its guards and returns
  \<open>Math.floor(u * range) + min\<close>, the product and the sum rounded as the code rounds them;
  the value returned is an integer of \<open>[mn, mx]\<close>; and some draw returns \<open>mn\<close> and some
  draw returns \<open>mx\<close>.
\<close>

theorem randint_in_range:
  fixes mn mx :: int and u :: real
  assumes "is_double (real_of_int mn)" and "is_double (real_of_int mx)" and "mn \<le> mx"
    and "real_of_int (mx - mn + 1) \<le> MAX_SAFE_INTEGER" and "double_draw u"
  shows "randint (Num (real_of_int mn)) (Num (real_of_int mx)) u
           = Inr (fadd (floor_number (fmul (Num u) (Num (real_of_int (mx - mn + 1)))))
                   (Num (real_of_int mn)))
       \<and> (\<exists>k :: int. randint (Num (real_of_int mn)) (Num (real_of_int mx)) u
                         = Inr (Num (real_of_int k)) \<and> mn \<le> k \<and> k \<le> mx)
       \<and> (\<exists>u0. double_draw u0
              \<and> randint (Num (real_of_int mn)) (Num (real_of_int mx)) u0
                  = Inr (Num (real_of_int mn)))
       \<and> (\<exists>u1. double_draw u1
              \<and> randint (Num (real_of_int mn)) (Num (real_of_int mx)) u1
                  = Inr (Num (real_of_int mx)))"
proof -
  let ?n = "mx - mn + 1"
  note v = randint_value[OF assms(1-4)]
  have nb: "1 \<le> ?n" "?n \<le> 2 ^ 53 - 1"
    using assms(3,4) by (simp_all add: MAX_SAFE_INTEGER_def)
  have A: "randint (Num (real_of_int mn)) (Num (real_of_int mx)) u
           = Inr (fadd (floor_number (fmul (Num u) (Num (real_of_int ?n))))
                   (Num (real_of_int mn)))"
    by (rule v(1)[OF assms(5)])
  have B: "\<exists>k :: int. randint (Num (real_of_int mn)) (Num (real_of_int mx)) u
                         = Inr (Num (real_of_int k)) \<and> mn \<le> k \<and> k \<le> mx"
  proof -
    let ?j = "\<lfloor>rdr (u * real_of_int ?n)\<rfloor>"
    obtain k :: int where k: "rdr (real_of_int (?j + mn)) = real_of_int k"
      using rdr_integer by blast
    have "real_of_int mn \<le> real_of_int k" "real_of_int k \<le> real_of_int mx"
      using v(5,6)[OF assms(5)] k by simp_all
    then have "mn \<le> k" "k \<le> mx" by simp_all
    moreover have "randint (Num (real_of_int mn)) (Num (real_of_int mx)) u
                     = Inr (Num (real_of_int k))"
      using v(1,2)[OF assms(5)] k by simp
    ultimately show ?thesis by blast
  qed
  have d0: "double_draw 0" by (simp add: double_draw_def)
  have C: "\<exists>u0. double_draw u0
              \<and> randint (Num (real_of_int mn)) (Num (real_of_int mx)) u0
                  = Inr (Num (real_of_int mn))"
  proof -
    have "rdr (real_of_int mn) = real_of_int mn" using assms(1) by (simp add: is_double_iff)
    then have "randint (Num (real_of_int mn)) (Num (real_of_int mx)) 0
                 = Inr (Num (real_of_int mn))"
      using v(1,2)[OF d0] by simp
    with d0 show ?thesis by blast
  qed
  have D: "\<exists>u1. double_draw u1
              \<and> randint (Num (real_of_int mn)) (Num (real_of_int mx)) u1
                  = Inr (Num (real_of_int mx))"
  proof -
    let ?u = "1 - (2::real) powi (- 53)"
    let ?j = "\<lfloor>rdr (?u * real_of_int ?n)\<rfloor>"
    note t = is_double_top_draw
    have "real_of_int ?n < real_of_int (2 ^ 53)" using nb by (simp only: of_int_less_iff)
    then have "real_of_int ?n * 2 powi (- 53) < real_of_int (2 ^ 53) * 2 powi (- 53)"
      by (intro mult_strict_right_mono) simp_all
    also have "\<dots> = 1" by (simp add: power_int_minus)
    finally have "real_of_int (?n - 1) \<le> ?u * real_of_int ?n"
      by (simp add: algebra_simps)
    then have "rdr (real_of_int (?n - 1)) \<le> rdr (?u * real_of_int ?n)" by (rule rdr_mono)
    moreover have "rdr (real_of_int (?n - 1)) = real_of_int (?n - 1)"
      using nb by (intro rdr_int) simp
    ultimately have "?n - 1 \<le> ?j" by (simp add: le_floor_iff)
    then have j: "?j = mx - mn" using v(4)[OF t] by simp
    have "rdr (real_of_int mx) = real_of_int mx" using assms(2) by (simp add: is_double_iff)
    then have "randint (Num (real_of_int mn)) (Num (real_of_int mx)) ?u
                 = Inr (Num (real_of_int mx))"
      using v(1,2)[OF t] j by simp
    with t show ?thesis by blast
  qed
  from A B C D show ?thesis by (intro conjI)
qed

theorem randint_in_range_witness:
  "randint (Num 1) (Num 6) (1/2) = Inr (Num 4)"
proof -
  have a: "is_double (real_of_int 1)" and b: "is_double (real_of_int 6)"
    by (rule is_double_int, simp)+
  have c: "(1::int) \<le> 6" and d: "real_of_int (6 - 1 + 1) \<le> MAX_SAFE_INTEGER"
    by (simp_all add: MAX_SAFE_INTEGER_def)
  have m: "fmul (Num (1/2)) (Num 6) = Num 3" using round_double_int[of 3] by simp
  have s: "fadd (Num 3) (Num 1) = Num 4" using round_double_int[of 4] by simp
  show ?thesis
    using randint_in_range[OF a b c d double_half, THEN conjunct1] m s by simp
qed

section \<open>Random.randrange: the count and the progression\<close>





lemma round_double_at_least:
  assumes "0 < c" and "rdr c = c" and "c \<le> x"
  shows "at_least c (round_double x)"
proof -
  have "c \<le> rdr x" using rdr_mono[OF assms(3)] assms(2) by simp
  moreover have "0 < x" using assms(1,3) by simp
  ultimately show ?thesis by (simp add: round_double_def at_least_def)
qed


lemma fadd_at_least:
  assumes "at_least a w" and "0 < c" and "rdr c = c" and "c \<le> a + y"
  shows "at_least c (fadd w (Num y))"
proof (cases w)
  case (Num x)
  then have "c \<le> x + y" using assms(1,4) by (simp add: at_least_def)
  then show ?thesis using Num round_double_at_least[OF assms(2,3)] by simp
qed (use assms(1) in \<open>simp_all add: at_least_def\<close>)













section \<open>Random.uniform: the interval\<close>









section \<open>Random.choices: the cumulative array\<close>













section \<open>Random.shuffle: permutation\<close>








section \<open>Random.sample: distinct positions\<close>













section \<open>Random.gauss: the cache\<close>





section \<open>SecureRandom.randint\<close>

lemma secure_loop_Unavailable:
  "secure_loop maxValid Unavailable = Some (Inl Error, Unavailable)"
  by (subst secure_loop.simps) (simp add: getRandomUint32_def)

lemma secure_loop_short:
  "length bs < 4 \<Longrightarrow> secure_loop maxValid (Bytes bs) = None"
  by (subst secure_loop.simps) (simp add: getRandomUint32_def)

lemma secure_loop_Bytes:
  "4 \<le> length bs \<Longrightarrow> secure_loop maxValid (Bytes bs) =
     (if real (unat (uint32_of_bytes (take 4 bs))) \<ge> maxValid
      then secure_loop maxValid (Bytes (drop 4 bs))
      else Some (Inr (real (unat (uint32_of_bytes (take 4 bs)))), Bytes (drop 4 bs)))"
  by (subst secure_loop.simps) (simp add: getRandomUint32_def)

lemma secure_loop_Bytes_result:
  "secure_loop maxValid (Bytes bs) = Some (res, src') \<Longrightarrow>
     \<exists>v :: 32 word. res = Inr (real (unat v)) \<and> real (unat v) < maxValid"
proof (induction bs rule: length_induct)
  case (1 bs)
  show ?case
  proof (cases "length bs < 4")
    case True
    with "1.prems" show ?thesis by (simp add: secure_loop_short)
  next
    case False
    then have len: "4 \<le> length bs" by simp
    show ?thesis
    proof (cases "real (unat (uint32_of_bytes (take 4 bs))) \<ge> maxValid")
      case True
      with "1.prems" len have "secure_loop maxValid (Bytes (drop 4 bs)) = Some (res, src')"
        by (simp add: secure_loop_Bytes)
      moreover have "length (drop 4 bs) < length bs" using len by simp
      ultimately show ?thesis using "1.IH" by blast
    next
      case False
      with "1.prems" len show ?thesis
        by (auto simp: secure_loop_Bytes)
    qed
  qed
qed

lemma secure_loop_error:
  "secure_loop maxValid src = Some (Inl e, src') \<Longrightarrow> e = Error"
proof (cases src)
  case Unavailable
  then show "secure_loop maxValid src = Some (Inl e, src') \<Longrightarrow> e = Error"
    by (simp add: secure_loop_Unavailable)
next
  case (Bytes bs)
  then show "secure_loop maxValid src = Some (Inl e, src') \<Longrightarrow> e = Error"
    using secure_loop_Bytes_result[of maxValid bs "Inl e" src'] by auto
qed

lemma secure_maxValid_int:
  "secure_maxValid (real_of_int r) = real_of_int (4294967296 div r * r)"
proof -
  have "\<lfloor>4294967296 / real_of_int r\<rfloor> = 4294967296 div r"
    using floor_divide_of_int_eq[of 4294967296 r, where ?'a = real] by simp
  then show ?thesis by (simp add: secure_maxValid_def Math_floor_def)
qed




lemma guards_int:
  fixes mn mx :: int
  shows "secure_randint_guards (Num (real_of_int mn)) (Num (real_of_int mx))
     = (if mn > mx then Some RangeError
        else if mx - mn + 1 > 4294967295 then Some RangeError else None)"
proof -
  have "(real_of_int mx - real_of_int mn + 1 > 4294967295) = (mx - mn + 1 > 4294967295)"
    by linarith
  then show ?thesis by (simp add: secure_randint_guards_def Let_def)
qed

lemma secure_randint_pass:
  fixes mn mx :: int
  assumes "secure_randint_guards (Num (real_of_int mn)) (Num (real_of_int mx)) = None"
  shows "secure_randint (Num (real_of_int mn)) (Num (real_of_int mx)) src =
     (case secure_loop (secure_maxValid (real_of_int (mx - mn + 1))) src of
        None \<Rightarrow> None
      | Some (Inl e, src') \<Rightarrow> Some (Inl e, src')
      | Some (Inr randomValue, src') \<Rightarrow>
          Some (Inr (fadd (Num (real_of_int mn))
                       (Num (js_rem randomValue (real_of_int (mx - mn + 1))))), src'))"
proof -
  have e: "real_of_int (mx - mn + 1) = real_of_int mx - real_of_int mn + 1" by simp
  show ?thesis unfolding e using assms by (simp add: secure_randint_def Let_def)
qed

lemma div_mult_facts:
  fixes r N :: int
  assumes "0 < r" "r \<le> N"
  shows "N div r * r \<le> N" and "0 < N div r"
proof -
  have "N div r * r + N mod r = N" by simp
  moreover have "0 \<le> N mod r" using assms(1) by simp
  ultimately show "N div r * r \<le> N" by linarith
  have "r div r \<le> N div r" using assms by (intro zdiv_mono1) auto
  then show "0 < N div r" using assms(1) by simp
qed

text \<open>
  The range and \<open>maxValid\<close> of the model are those that the code computes in doubles: the
  guard on the rounded range decides as the guard on the exact range does, a range of at
  most \<open>2^32\<close> is computed without rounding, and so is \<open>maxValid\<close>.
\<close>

lemma secure_range_double:
  fixes mn mx :: int
  assumes "mn \<le> mx"
  shows "num_less (Num 4294967295)
           (fadd (fsub (Num (real_of_int mx)) (Num (real_of_int mn))) (Num 1))
         = (4294967295 < mx - mn + 1)"
    and "mx - mn + 1 \<le> 4294967296 \<Longrightarrow>
           fadd (fsub (Num (real_of_int mx)) (Num (real_of_int mn))) (Num 1)
             = Num (real_of_int (mx - mn + 1))"
proof -
  define d where "d = mx - mn"
  have d0: "0 \<le> d" using assms by (simp add: d_def)
  have w: "fsub (Num (real_of_int mx)) (Num (real_of_int mn)) = round_double (real_of_int d)"
    by (simp add: fsub_Num d_def)
  have small: "fadd (round_double (real_of_int d)) (Num 1) = Num (real_of_int (d + 1))"
    if "d + 1 \<le> 4294967296"
  proof -
    have "\<bar>d\<bar> \<le> 2 ^ 53" "\<bar>d + 1\<bar> \<le> 2 ^ 53" using that d0 by simp_all
    then show ?thesis using round_double_int[of d] round_double_int[of "d + 1"] by simp
  qed
  show "mx - mn + 1 \<le> 4294967296 \<Longrightarrow>
           fadd (fsub (Num (real_of_int mx)) (Num (real_of_int mn))) (Num 1)
             = Num (real_of_int (mx - mn + 1))"
    unfolding w using small by (simp add: d_def)
  show "num_less (Num 4294967295)
           (fadd (fsub (Num (real_of_int mx)) (Num (real_of_int mn))) (Num 1))
         = (4294967295 < mx - mn + 1)"
  proof (cases "d + 1 \<le> 4294967296")
    case True
    have "num_less (Num 4294967295) (Num (real_of_int (d + 1))) = (4294967295 < d + 1)"
      unfolding num_less.simps
      using of_int_less_iff[of 4294967295 "d + 1", where ?'a = real] by simp
    then show ?thesis unfolding w small[OF True] by (simp add: d_def)
  next
    case False
    then have big: "4294967296 \<le> d" by simp
    have c: "rdr 4294967296 = 4294967296" using rdr_int[of 4294967296] by simp
    have "(4294967296::real) \<le> real_of_int d"
      using big of_int_le_iff[of 4294967296 d, where ?'a = real] by simp
    then have "at_least 4294967296 (round_double (real_of_int d))"
      by (intro round_double_at_least c) simp_all
    then have "at_least 4294967296 (fadd (round_double (real_of_int d)) (Num 1))"
      by (rule fadd_at_least) (simp_all add: c)
    then have "num_less (Num 4294967295) (fadd (round_double (real_of_int d)) (Num 1))"
      by (cases "fadd (round_double (real_of_int d)) (Num 1)") (simp_all add: at_least_def)
    then show ?thesis unfolding w using False by (simp add: d_def)
  qed
qed

lemma secure_maxValid_double:
  fixes r :: int
  assumes "1 \<le> r" and "r \<le> 4294967296"
  shows "fmul (floor_number (fdiv (Num 4294967296) (Num (real_of_int r)))) (Num (real_of_int r))
           = Num (secure_maxValid (real_of_int r))"
proof -
  define q where "q = 4294967296 div r"
  have r53: "r \<le> 2 ^ 53" using assms(2) by simp
  have a: "(0::int) \<le> 4294967296" "(4294967296::int) < 2 ^ 53" by simp_all
  note f = floor_rdr_div[OF a assms(1) r53]
  have r0: "real_of_int r \<noteq> 0" using assms(1) by simp
  have "fdiv (Num (real_of_int 4294967296)) (Num (real_of_int r))
          = Num (rdr (real_of_int 4294967296 / real_of_int r))"
    using r0 f(2) by (simp add: round_double_finite)
  then have fl: "floor_number (fdiv (Num 4294967296) (Num (real_of_int r))) = Num (real_of_int q)"
    using f(1) by (simp add: q_def)
  have "0 < r" using assms(1) by simp
  moreover have "r \<le> 4294967296" by (rule assms(2))
  ultimately have "q * r \<le> 4294967296" "0 < q"
    unfolding q_def using div_mult_facts[of r 4294967296] by simp_all
  then have "\<bar>q * r\<bar> \<le> 2 ^ 53" using \<open>0 < r\<close> by simp
  then have "round_double (real_of_int (q * r)) = Num (real_of_int (q * r))"
    by (rule round_double_int)
  then have "fmul (Num (real_of_int q)) (Num (real_of_int r)) = Num (real_of_int (q * r))"
    by simp
  then show ?thesis unfolding fl secure_maxValid_int q_def .
qed









text \<open>
  Claim C9, as amended. For integers \<open>mn \<le> mx\<close>, \<open>secure.randint\<close> fails with a
  \<open>RangeError\<close> exactly when the range \<open>mx - mn + 1\<close> exceeds \<open>2^32 - 1\<close> (the guard
  \<open>range > 0xFFFFFFFF\<close>); for every range up to \<open>2^32 - 1\<close> the guards pass and the result
  is that of the drawing loop.
\<close>

theorem secure_randint_range_limit:
  fixes mn mx :: int
  assumes "mn \<le> mx"
  shows "(secure_randint_guards (Num (real_of_int mn)) (Num (real_of_int mx)) = Some RangeError)
           = (4294967295 < mx - mn + 1)
       \<and> (\<forall>src src'. (secure_randint (Num (real_of_int mn)) (Num (real_of_int mx)) src
                         = Some (Inl RangeError, src'))
                     = (4294967295 < mx - mn + 1 \<and> src' = src))
       \<and> (mx - mn + 1 \<le> 4294967295 \<longrightarrow>
            secure_randint_guards (Num (real_of_int mn)) (Num (real_of_int mx)) = None
          \<and> (\<forall>src. secure_randint (Num (real_of_int mn)) (Num (real_of_int mx)) src =
               (case secure_loop (secure_maxValid (real_of_int (mx - mn + 1))) src of
                  None \<Rightarrow> None
                | Some (Inl e, src') \<Rightarrow> Some (Inl e, src')
                | Some (Inr randomValue, src') \<Rightarrow>
                    Some (Inr (fadd (Num (real_of_int mn))
                                 (Num (js_rem randomValue (real_of_int (mx - mn + 1))))),
                          src'))))"
proof (cases "4294967295 < mx - mn + 1")
  case True
  then have g: "secure_randint_guards (Num (real_of_int mn)) (Num (real_of_int mx)) = Some RangeError"
    using assms by (simp add: guards_int)
  then have "secure_randint (Num (real_of_int mn)) (Num (real_of_int mx)) src
      = Some (Inl RangeError, src)" for src
    by (simp add: secure_randint_def)
  with g True show ?thesis by auto
next
  case False
  then have g: "secure_randint_guards (Num (real_of_int mn)) (Num (real_of_int mx)) = None"
    using assms by (simp add: guards_int)
  have "secure_randint (Num (real_of_int mn)) (Num (real_of_int mx)) src
      \<noteq> Some (Inl RangeError, src')" for src src'
  proof
    assume a: "secure_randint (Num (real_of_int mn)) (Num (real_of_int mx)) src
      = Some (Inl RangeError, src')"
    then have "secure_loop (secure_maxValid (real_of_int (mx - mn + 1))) src
        = Some (Inl RangeError, src')"
      unfolding secure_randint_pass[OF g]
      by (auto split: option.splits sum.splits prod.splits)
    then show False using secure_loop_error by blast
  qed
  with g False secure_randint_pass[OF g] show ?thesis by simp
qed

theorem secure_randint_range_limit_witness:
  "secure_randint_guards (Num 0) (Num 4294967294) = None
   \<and> secure_randint (Num 0) (Num 4294967294) Unavailable = Some (Inl Error, Unavailable)"
  using secure_randint_range_limit[of 0 4294967294]
  by (simp add: secure_loop_Unavailable)

text \<open>
  Claim C9 as stated fails at the range \<open>2^32\<close> itself: \<open>secure.randint 0 4294967295\<close> has
  a range that does not exceed \<open>2^32\<close>, and fails with a \<open>RangeError\<close>.
\<close>

theorem secure_randint_range_limit_counterexample:
  "(0::int) \<le> 4294967295 \<and> \<not> (4294967295 - 0 + 1 > (2::int) ^ 32)
   \<and> secure_randint (Num 0) (Num 4294967295) (Bytes [0, 0, 0, 0])
       = Some (Inl RangeError, Bytes [0, 0, 0, 0])"
  by (simp add: secure_randint_def secure_randint_guards_def)

end
